theory Spec2Isabelle
  imports Main "HOL-Library.AList" "HOL-Library.List_Lexorder"
begin

section \<open>Python strings\<close>

text \<open>
  A Python \<^verbatim>\<open>str\<close> is a sequence of Unicode code points, so a string is a list of
  natural numbers. String comparison in Python is lexicographic by code point, which is
  the lexicographic order on \<^typ>\<open>nat list\<close>. Literals of the
  source are written \<open>str ''...''\<close>.
\<close>

type_synonym pystr = "nat list"

definition str :: "string \<Rightarrow> pystr" where
  "str s = map of_char s"

text \<open>\<^verbatim>\<open>str.isspace\<close> of one code point: the white space table of CPython.\<close>

definition py_isspace :: "nat \<Rightarrow> bool" where
  "py_isspace c \<longleftrightarrow>
     (9 \<le> c \<and> c \<le> 13) \<or> (28 \<le> c \<and> c \<le> 32) \<or> c = 133 \<or> c = 160 \<or> c = 5760 \<or>
     (8192 \<le> c \<and> c \<le> 8202) \<or> c = 8232 \<or> c = 8233 \<or> c = 8239 \<or> c = 8287 \<or> c = 12288"

text \<open>The line boundaries of \<^verbatim>\<open>str.splitlines\<close>.\<close>

definition is_linebreak :: "nat \<Rightarrow> bool" where
  "is_linebreak c \<longleftrightarrow>
     (10 \<le> c \<and> c \<le> 13) \<or> (28 \<le> c \<and> c \<le> 30) \<or> c = 133 \<or> c = 8232 \<or> c = 8233"

text \<open>
  \<^verbatim>\<open>s.strip()\<close> and \<^verbatim>\<open>s.strip(chars)\<close>: drop the leading and the trailing characters
  that belong to the given class.
\<close>

definition strip_chars :: "(nat \<Rightarrow> bool) \<Rightarrow> pystr \<Rightarrow> pystr" where
  "strip_chars P s = rev (dropWhile P (rev (dropWhile P s)))"

definition py_strip :: "pystr \<Rightarrow> pystr" where
  "py_strip s = strip_chars py_isspace s"

text \<open>
  \<^verbatim>\<open>str.lower\<close>. The letters A to Z go to a to z. Two code points outside ASCII have a
  lower-case form that contains an ASCII letter: the Kelvin sign (U+212A) becomes
  \<^verbatim>\<open>k\<close>, and the dotted capital I (U+0130) becomes \<^verbatim>\<open>i\<close> followed by U+0307. Every
  other code point is left as it is here; Python may send it to another code point
  outside ASCII. \<^verbatim>\<open>slugify\<close> replaces every code point outside \<^verbatim>\<open>[a-z0-9]\<close>
  and so does not tell the two apart. On strings of
  ASCII characters \<open>py_lower\<close> is \<^verbatim>\<open>str.lower\<close>.
\<close>

definition lower_cp :: "nat \<Rightarrow> pystr" where
  "lower_cp c =
     (if 65 \<le> c \<and> c \<le> 90 then [c + 32]
      else if c = 8490 then [107]
      else if c = 304 then [105, 775]
      else [c])"

definition py_lower :: "pystr \<Rightarrow> pystr" where
  "py_lower s = concat (map lower_cp s)"

text \<open>\<^verbatim>\<open>sep.join(xs)\<close>.\<close>

fun py_join :: "pystr \<Rightarrow> pystr list \<Rightarrow> pystr" where
  "py_join sep [] = []"
| "py_join sep [x] = x"
| "py_join sep (x # y # ys) = x @ sep @ py_join sep (y # ys)"

text \<open>
  \<^verbatim>\<open>str.splitlines()\<close>: the text is cut at every line boundary, \<^verbatim>\<open>\r\n\<close> counting as
  one boundary, and a boundary at the very end opens no further line. The first
  argument is the line read so far.
\<close>

fun splitlines_from :: "pystr \<Rightarrow> pystr \<Rightarrow> pystr list" where
  "splitlines_from cur [] = (if cur = [] then [] else [cur])"
| "splitlines_from cur [c] = (if is_linebreak c then [cur] else [cur @ [c]])"
| "splitlines_from cur (c # d # cs) =
     (if c = 13 \<and> d = 10 then cur # splitlines_from [] cs
      else if is_linebreak c then cur # splitlines_from [] (d # cs)
      else splitlines_from (cur @ [c]) (d # cs))"

definition splitlines :: "pystr \<Rightarrow> pystr list" where
  "splitlines s = splitlines_from [] s"

text \<open>
  Reading a file in text mode translates \<^verbatim>\<open>\r\n\<close> and a lone \<^verbatim>\<open>\r\<close> to \<^verbatim>\<open>\n\<close>
  (universal newlines). Writing is modelled for a platform whose line separator is
  \<^verbatim>\<open>\n\<close>, where the text is stored as it is.
\<close>

fun universal_newlines :: "pystr \<Rightarrow> pystr" where
  "universal_newlines [] = []"
| "universal_newlines [c] = (if c = 13 then [10] else [c])"
| "universal_newlines (c # d # cs) =
     (if c = 13 \<and> d = 10 then 10 # universal_newlines cs
      else if c = 13 then 10 # universal_newlines (d # cs)
      else c # universal_newlines (d # cs))"

text \<open>
  \<^verbatim>\<open>re.sub(r"[C]+", "_", s)\<close> for a character class \<open>C\<close>: scanning from the left, every
  maximal run of characters of the class is replaced by one underscore.
\<close>

function re_sub_runs :: "(nat \<Rightarrow> bool) \<Rightarrow> pystr \<Rightarrow> pystr" where
  "re_sub_runs C [] = []"
| "re_sub_runs C (c # cs) =
     (if C c then 95 # re_sub_runs C (dropWhile C cs) else c # re_sub_runs C cs)"
  by pat_completeness auto
termination
  by (relation "measure (\<lambda>(C, s). length s)")
     (auto simp: length_dropWhile_le le_imp_less_Suc)

section \<open>Key derivation\<close>

text \<open>The class \<^verbatim>\<open>[a-z0-9]\<close> and its complement \<^verbatim>\<open>[^a-z0-9]\<close>.\<close>

definition is_az09 :: "nat \<Rightarrow> bool" where
  "is_az09 c \<longleftrightarrow> (97 \<le> c \<and> c \<le> 122) \<or> (48 \<le> c \<and> c \<le> 57)"

definition not_az09 :: "nat \<Rightarrow> bool" where
  "not_az09 c \<longleftrightarrow> \<not> is_az09 c"

definition is_underscore :: "nat \<Rightarrow> bool" where
  "is_underscore c \<longleftrightarrow> c = 95"

definition slugify :: "pystr \<Rightarrow> pystr" where
  "slugify name =
     (let s = py_strip (py_lower name);
          s = re_sub_runs not_az09 s
      in strip_chars is_underscore (re_sub_runs is_underscore s))"

definition node_file :: "pystr \<Rightarrow> pystr" where
  "node_file name = slugify name @ str ''.txt''"

text \<open>
  The text of a path below the resolved data directory \<open>dp\<close>, as \<^verbatim>\<open>str(data_dir / file)\<close>
  gives it: the root directory already ends with the separator.
\<close>

definition path_str :: "pystr \<Rightarrow> pystr \<Rightarrow> pystr" where
  "path_str dp file = (if dp = str ''/'' then dp @ file else dp @ str ''/'' @ file)"

definition node_path :: "pystr \<Rightarrow> pystr \<Rightarrow> pystr" where
  "node_path dp name = path_str dp (node_file name)"

section \<open>Node store\<close>

text \<open>The dataclass \<^verbatim>\<open>Node\<close> with its fields \<^verbatim>\<open>type\<close>, \<^verbatim>\<open>parent\<close> and \<^verbatim>\<open>notes\<close>.\<close>

record Node =
  n_type :: pystr
  n_parent :: pystr
  n_notes :: pystr

definition read_node :: "pystr \<Rightarrow> Node" where
  "read_node raw =
     (let text = splitlines (universal_newlines raw);
          t = (if length text > 0 then py_strip (text ! 0) else str ''Node'');
          p = (if length text > 1 then py_strip (text ! 1) else str ''-'');
          n = (if length text > 2 then py_join (str [CHR 0x0A]) (drop 2 text) else [])
      in \<lparr>n_type = t, n_parent = p, n_notes = n\<rparr>)"

text \<open>
  The data directory: its files, each a name and a text, with no name twice. The state
  of the world is the directory when it exists, \<open>None\<close> when it does not.
\<close>

type_synonym directory = "(pystr \<times> pystr) list"

definition glob_txt :: "pystr \<Rightarrow> bool" where
  "glob_txt f \<longleftrightarrow> length f \<ge> 4 \<and> drop (length f - 4) f = str ''.txt''"

text \<open>
  \<^verbatim>\<open>Path.stem\<close>: the name without its last suffix; a name whose only dot is the first
  character has no suffix.
\<close>

definition stem :: "pystr \<Rightarrow> pystr" where
  "stem f = (if f = str ''.txt'' then f else take (length f - 4) f)"

definition iter_nodes :: "directory \<Rightarrow> (pystr \<times> pystr) list" where
  "iter_nodes d = sort_key fst (filter (\<lambda>(f, text). glob_txt f) d)"

section \<open>Index builder\<close>

text \<open>
  The two dictionaries of \<^verbatim>\<open>build_index\<close> are association lists in insertion order:
  \<^verbatim>\<open>nodes\<close> from a key to its node and \<^verbatim>\<open>children\<close> from a parent group (\<open>None\<close> for
  Python's \<^verbatim>\<open>None\<close>) to the list of child keys. An assignment to a key that is present
  keeps its place, as in a Python \<^verbatim>\<open>dict\<close>.

  The lists are sorted with \<^verbatim>\<open>key=str.lower\<close>, where the order of two keys depends on
  the whole case table of Unicode. That table is not part of the source, so the sort
  key is the parameter \<open>lower\<close> of \<^verbatim>\<open>build_index\<close>, of the roots and of \<^verbatim>\<open>cmd_tree\<close>, and
  what is proved of them holds for every key. The examples, whose keys are ASCII, take
  \<open>py_lower\<close>.
\<close>

type_synonym nodes = "(pystr \<times> Node) list"
type_synonym children = "(pystr option \<times> pystr list) list"

text \<open>\<^verbatim>\<open>children.get(k, [])\<close>.\<close>

definition children_get :: "children \<Rightarrow> pystr option \<Rightarrow> pystr list" where
  "children_get ch k = (case map_of ch k of None \<Rightarrow> [] | Some v \<Rightarrow> v)"

definition parent_group :: "Node \<Rightarrow> pystr option" where
  "parent_group n =
     (if n_parent n \<noteq> [] \<and> n_parent n \<noteq> str ''-'' then Some (n_parent n) else None)"

definition index_step :: "pystr \<times> pystr \<Rightarrow> nodes \<times> children \<Rightarrow> nodes \<times> children" where
  "index_step file acc =
     (let name = stem (fst file);
          n = read_node (snd file);
          nodes = AList.update name n (fst acc);
          p = parent_group n;
          children = AList.update p (children_get (snd acc) p @ [name]) (snd acc)
      in (nodes, children))"

definition build_index :: "(pystr \<Rightarrow> pystr) \<Rightarrow> directory \<Rightarrow> nodes \<times> children" where
  "build_index lower d =
     (let acc = fold index_step (iter_nodes d) ([], [])
      in (fst acc, map (\<lambda>(k, v). (k, sort_key lower v)) (snd acc)))"

section \<open>Tree renderer\<close>

text \<open>The loop that removes duplicates from \<^verbatim>\<open>kids\<close>, with its \<^verbatim>\<open>seen\<close> and \<^verbatim>\<open>ordered\<close>.\<close>

fun dedup_loop :: "pystr list \<Rightarrow> pystr set \<Rightarrow> pystr list \<Rightarrow> pystr list" where
  "dedup_loop [] seen ordered = ordered"
| "dedup_loop (k # ks) seen ordered =
     (if k \<notin> seen then dedup_loop ks (insert k seen) (ordered @ [k])
      else dedup_loop ks seen ordered)"

definition glyph_last :: pystr where
  "glyph_last = [0x2514, 0x2500, 0x20]"

definition glyph_branch :: pystr where
  "glyph_branch = [0x251C, 0x2500, 0x20]"

definition glyph_bar :: pystr where
  "glyph_bar = [0x2502, 0x20, 0x20]"

definition glyph_blank :: pystr where
  "glyph_blank = [0x20, 0x20, 0x20]"

text \<open>
  \<^verbatim>\<open>kids = children.get("/" + name, [])\<close> is the list stored in the dictionary when the
  key is present, and \<^verbatim>\<open>kids += ...\<close> extends that very list: the dictionary entry
  grows. The renderer therefore passes the dictionary along and returns it.
\<close>

definition lookup_kids :: "children \<Rightarrow> pystr \<Rightarrow> pystr list \<times> children" where
  "lookup_kids ch name =
     (case map_of ch (Some (47 # name)) of
        None \<Rightarrow> ([] @ children_get ch (Some name), ch)
      | Some stored \<Rightarrow>
          (let kids = stored @ children_get ch (Some name)
           in (kids, AList.update (Some (47 # name)) kids ch)))"

type_synonym printed = "(pystr list \<times> children) option"

text \<open>
  The loop over \<^verbatim>\<open>enumerate(ordered)\<close>; \<open>rec\<close> is the recursive call. The child is
  last when no child follows it. \<^verbatim>\<open>child_prefix\<close> is computed and never used, and the
  test after the recursive call only passes.
\<close>

fun display_children ::
  "(children \<Rightarrow> pystr \<Rightarrow> pystr \<Rightarrow> printed) \<Rightarrow> pystr \<Rightarrow> pystr list \<Rightarrow> children \<Rightarrow> printed" where
  "display_children rec prefix [] ch = Some ([], ch)"
| "display_children rec prefix (child # rest) ch =
     (let last = (rest = []);
          branch = (if last then glyph_last else glyph_branch);
          child_prefix = (if last then glyph_blank else glyph_bar)
      in case rec ch child (prefix @ branch) of
           None \<Rightarrow> None
         | Some (out1, ch1) \<Rightarrow>
             (case display_children rec prefix rest ch1 of
                None \<Rightarrow> None
              | Some (out2, ch2) \<Rightarrow> Some (out1 @ out2, ch2)))"

text \<open>
  \<^verbatim>\<open>display\<close>, with the depth of recursion bounded by the first argument: \<open>None\<close> says
  that the bound was reached. The result is the printed lines and the dictionary.
\<close>

primrec display :: "nat \<Rightarrow> nodes \<Rightarrow> children \<Rightarrow> pystr \<Rightarrow> pystr \<Rightarrow> printed" where
  "display 0 nodes ch name prefix = None"
| "display (Suc fuel) nodes ch name prefix =
     (let label = (case map_of nodes name of
                     Some n \<Rightarrow> name @ str '' ['' @ n_type n @ str '']''
                   | None \<Rightarrow> name);
          kc = lookup_kids ch name;
          ordered = dedup_loop (fst kc) {} []
      in case display_children (display fuel nodes) prefix ordered (snd kc) of
           None \<Rightarrow> None
         | Some (out, ch') \<Rightarrow> Some ((prefix @ label) # out, ch'))"

definition tree_roots :: "(pystr \<Rightarrow> pystr) \<Rightarrow> nodes \<Rightarrow> pystr list" where
  "tree_roots lower nodes =
     sort_key lower
       (map fst (filter (\<lambda>(name, n). n_parent n = [] \<or> n_parent n = str ''-'') nodes))"

text \<open>The loop over the roots: each subtree is followed by an empty line.\<close>

fun display_roots ::
  "(children \<Rightarrow> pystr \<Rightarrow> pystr \<Rightarrow> printed) \<Rightarrow> pystr list \<Rightarrow> children \<Rightarrow> pystr list option" where
  "display_roots rec [] ch = Some []"
| "display_roots rec (r # rs) ch =
     (case rec ch r [] of
        None \<Rightarrow> None
      | Some (out1, ch1) \<Rightarrow>
          (case display_roots rec rs ch1 of
             None \<Rightarrow> None
           | Some out2 \<Rightarrow> Some (out1 @ [[]] @ out2)))"

section \<open>Commands\<close>

text \<open>
  A command takes the state of the data directory, the text \<open>dp\<close> of its resolved path
  and its arguments, and returns its exit status and the strings it printed, one for
  each call of \<^verbatim>\<open>print\<close>.
\<close>

definition file_text :: "directory option \<Rightarrow> pystr \<Rightarrow> pystr option" where
  "file_text st f = (case st of None \<Rightarrow> None | Some d \<Rightarrow> map_of d f)"

definition cmd_tree ::
  "(pystr \<Rightarrow> pystr) \<Rightarrow> nat \<Rightarrow> directory option \<Rightarrow> pystr \<Rightarrow> pystr option
     \<Rightarrow> (int \<times> pystr list) option" where
  "cmd_tree lower fuel st dp root =
     (case st of
        None \<Rightarrow> Some (1, [str ''No data directory: '' @ dp])
      | Some d \<Rightarrow>
          (let idx = build_index lower d;
               roots = tree_roots lower (fst idx)
           in if root \<noteq> None \<and> root \<noteq> Some [] then
                (let start = the root
                 in if map_of (fst idx) start = None
                    then Some (1, [str ''Root not found: '' @ start])
                    else (case display fuel (fst idx) (snd idx) start [] of
                            None \<Rightarrow> None
                          | Some (out, ch') \<Rightarrow> Some (0, out)))
              else (case display_roots (display fuel (fst idx)) roots (snd idx) of
                      None \<Rightarrow> None
                    | Some out \<Rightarrow> Some (0, out))))"

definition cmd_show :: "directory option \<Rightarrow> pystr \<Rightarrow> pystr \<Rightarrow> int \<times> pystr list" where
  "cmd_show st dp name =
     (case file_text st (node_file name) of
        None \<Rightarrow> (1, [str ''Node not found: '' @ node_path dp name])
      | Some raw \<Rightarrow>
          (let n = read_node raw
           in (0, [str ''Name:   '' @ name,
                   str ''Type:   '' @ n_type n,
                   str ''Parent: '' @ n_parent n,
                   str ''Notes:'',
                   (if n_notes n \<noteq> [] then n_notes n else str ''(none)'')])))"

text \<open>The text that \<^verbatim>\<open>cmd_add\<close> writes.\<close>

definition record_text :: "pystr \<Rightarrow> pystr option \<Rightarrow> pystr \<Rightarrow> pystr" where
  "record_text t p notes =
     (let parent = (if p = None \<or> p = Some [] then str ''-'' else the p);
          lines = [t, parent] @ (if notes \<noteq> [] then [notes] else [])
      in py_join (str [CHR 0x0A]) lines @ str [CHR 0x0A])"

text \<open>
  \<^verbatim>\<open>cmd_add\<close> with the arguments \<^verbatim>\<open>name\<close>, \<^verbatim>\<open>type\<close>, \<^verbatim>\<open>parent\<close> (\<open>None\<close> when not given),
  \<^verbatim>\<open>notes\<close> and \<^verbatim>\<open>force\<close>; it returns the new state as well. The directory is created
  first when it is missing.
\<close>

definition cmd_add ::
  "directory option \<Rightarrow> pystr \<Rightarrow> pystr \<Rightarrow> pystr \<Rightarrow> pystr option \<Rightarrow> pystr \<Rightarrow> bool
     \<Rightarrow> int \<times> pystr list \<times> directory option" where
  "cmd_add st dp name t p notes force =
     (let d = (case st of None \<Rightarrow> [] | Some d \<Rightarrow> d)
      in if map_of d (node_file name) \<noteq> None \<and> \<not> force
         then (1, [str ''Refusing to overwrite existing node: '' @ node_path dp name], Some d)
         else (0, [str ''Created node: '' @ node_path dp name],
               Some (AList.update (node_file name) (record_text t p notes) d)))"

text \<open>\<^verbatim>\<open>cmd_init\<close> creates the directory and, when it is absent, the file \<^verbatim>\<open>README.txt\<close>.\<close>

definition readme_text :: pystr where
  "readme_text = str ''World Builder data directory.'' @ [10] @
                 str ''You can store your notes here in plain text files.'' @ [10]"

definition cmd_init :: "directory option \<Rightarrow> pystr \<Rightarrow> int \<times> pystr list \<times> directory option" where
  "cmd_init st dp =
     (let d = (case st of None \<Rightarrow> [] | Some d \<Rightarrow> d);
          d' = (if map_of d (str ''README.txt'') = None
                then AList.update (str ''README.txt'') readme_text d else d)
      in (0, [str ''Initialized data directory at: '' @ dp], Some d'))"

section \<open>Reference descriptions\<close>

subsection \<open>The key of a name, as the specification words it\<close>

text \<open>
  The maximal runs of a string with respect to a class: neighbours stay together when
  both are in the class or both are outside it.
\<close>

fun spec_runs :: "(nat \<Rightarrow> bool) \<Rightarrow> pystr \<Rightarrow> pystr list" where
  "spec_runs C [] = []"
| "spec_runs C [c] = [[c]]"
| "spec_runs C (c # d # cs) =
     (if C c = C d
      then (case spec_runs C (d # cs) of [] \<Rightarrow> [[c]] | r # rs \<Rightarrow> (c # r) # rs)
      else [c] # spec_runs C (d # cs))"

text \<open>Every maximal run of characters of the class becomes one underscore.\<close>

definition spec_replace_runs :: "(nat \<Rightarrow> bool) \<Rightarrow> pystr \<Rightarrow> pystr" where
  "spec_replace_runs C s =
     concat (map (\<lambda>r. if r \<noteq> [] \<and> C (hd r) then [95] else r) (spec_runs C s))"

text \<open>Repeated underscores collapse: an underscore before an underscore is dropped.\<close>

fun spec_collapse :: "pystr \<Rightarrow> pystr" where
  "spec_collapse [] = []"
| "spec_collapse [c] = [c]"
| "spec_collapse (c # d # cs) =
     (if c = 95 \<and> d = 95 then spec_collapse (d # cs) else c # spec_collapse (d # cs))"

text \<open>
  Lower-case the name, replace every maximal run outside \<^verbatim>\<open>[a-z0-9]\<close>, collapse
  repeated underscores, strip the underscores at both ends.
\<close>

definition spec_slugify :: "pystr \<Rightarrow> pystr" where
  "spec_slugify name =
     strip_chars is_underscore (spec_collapse (spec_replace_runs not_az09 (py_lower name)))"

subsection \<open>Records of the directory\<close>

text \<open>The key and the parent group of a file that \<^verbatim>\<open>iter_nodes\<close> yields.\<close>

definition rec_key :: "pystr \<times> pystr \<Rightarrow> pystr" where
  "rec_key r = stem (fst r)"

definition rec_group :: "pystr \<times> pystr \<Rightarrow> pystr option" where
  "rec_group r = parent_group (read_node (snd r))"

subsection \<open>The children of a name\<close>

text \<open>De-duplication that keeps the first occurrence of every element in its place.\<close>

fun first_seen :: "pystr list \<Rightarrow> pystr list" where
  "first_seen [] = []"
| "first_seen (x # xs) = x # filter (\<lambda>y. y \<noteq> x) (first_seen xs)"

text \<open>
  The dual lookup of the specification: the children stored under \<^verbatim>\<open>/name\<close>, then
  those stored under \<^verbatim>\<open>name\<close>, de-duplicated.
\<close>

definition dual_lookup :: "children \<Rightarrow> pystr \<Rightarrow> pystr list" where
  "dual_lookup ch name =
     first_seen (children_get ch (Some (str ''/'' @ name)) @ children_get ch (Some name))"

definition starts_slash :: "pystr \<Rightarrow> bool" where
  "starts_slash s \<longleftrightarrow> take 1 s = str ''/''"

text \<open>The line of a node without its prefix: \<^verbatim>\<open>name [type]\<close>, or the name alone.\<close>

definition node_label :: "nodes \<Rightarrow> pystr \<Rightarrow> pystr" where
  "node_label nodes name =
     (case map_of nodes name of
        Some n \<Rightarrow> name @ str '' ['' @ n_type n @ str '']''
      | None \<Rightarrow> name)"

text \<open>The relation between a name and the children that the index gives it.\<close>

definition child_rel :: "children \<Rightarrow> (pystr \<times> pystr) set" where
  "child_rel ch =
     {(n, c). c \<in> set (children_get ch (Some (str ''/'' @ n)) @ children_get ch (Some n))}"

text \<open>
  Two dictionaries agree when they give the same children to every name that does not
  start with \<^verbatim>\<open>/\<close>.
\<close>

definition agrees :: "children \<Rightarrow> children \<Rightarrow> bool" where
  "agrees ch0 ch \<longleftrightarrow> (\<forall>m. \<not> starts_slash m \<longrightarrow> dual_lookup ch m = dual_lookup ch0 m)"

section \<open>Example directories\<close>

text \<open>
  Three records; \<^verbatim>\<open>Gondor.txt\<close> has an empty parent line and an upper-case letter in
  its name.
\<close>

definition dir_edoras :: directory where
  "dir_edoras =
     [(str ''rohan.txt'', str ''Continent'' @ [10] @ str ''edoras'' @ [10]),
      (str ''edoras.txt'', str ''Kingdom'' @ [10] @ str ''-'' @ [10]),
      (str ''Gondor.txt'', str ''Kingdom'' @ [10] @ [10])]"

text \<open>The state after \<^verbatim>\<open>init\<close> and \<^verbatim>\<open>add README\<close> in a place without data directory.\<close>

definition st_readme :: "directory option" where
  "st_readme = snd (snd (cmd_add (snd (snd (cmd_init None (str ''/w'')))) (str ''/w'')
                    (str ''README'') (str ''Node'') None [] False))"

text \<open>Two records that name each other as parent.\<close>

definition dir_cycle :: directory where
  "dir_cycle =
     [(str ''a.txt'', str ''Node'' @ [10] @ str ''b'' @ [10]),
      (str ''b.txt'', str ''Node'' @ [10] @ str ''a'' @ [10])]"

text \<open>A tree with two levels below its root.\<close>

definition dir_arda :: directory where
  "dir_arda =
     [(str ''arda.txt'', str ''World'' @ [10] @ str ''-'' @ [10]),
      (str ''gondor.txt'', str ''Kingdom'' @ [10] @ str ''arda'' @ [10]),
      (str ''minas_tirith.txt'', str ''City'' @ [10] @ str ''/gondor'' @ [10]),
      (str ''rohan.txt'', str ''Kingdom'' @ [10] @ str ''arda'' @ [10]),
      (str ''edoras.txt'', str ''City'' @ [10] @ str ''rohan'' @ [10])]"

text \<open>A node whose children use both forms of the parent reference.\<close>

definition dir_dual :: directory where
  "dir_dual =
     [(str ''a.txt'', str ''T'' @ [10] @ str ''-'' @ [10]),
      (str ''x.txt'', str ''T'' @ [10] @ str ''/a'' @ [10]),
      (str ''z.txt'', str ''T'' @ [10] @ str ''a'' @ [10])]"


section \<open>Evaluation\<close>

text \<open>The equations that evaluate the model on a given input.\<close>

lemmas eval_defs = str_def py_lower_def lower_cp_def py_strip_def strip_chars_def py_isspace_def
  not_az09_def is_az09_def is_underscore_def slugify_def node_file_def is_linebreak_def
  splitlines_def read_node_def record_text_def file_text_def glob_txt_def stem_def iter_nodes_def
  build_index_def index_step_def parent_group_def children_get_def lookup_kids_def tree_roots_def
  cmd_tree_def cmd_show_def cmd_add_def cmd_init_def readme_text_def path_str_def node_path_def
  glyph_last_def glyph_branch_def glyph_bar_def glyph_blank_def Let_def update_conv'

section \<open>Properties of the key derivation\<close>

lemma spec_runs_nonempty: "s \<noteq> [] \<Longrightarrow> spec_runs C s \<noteq> []"
  by (induction C s rule: spec_runs.induct) (auto split: list.splits)

lemma spec_runs_hd: "s \<noteq> [] \<Longrightarrow> hd (hd (spec_runs C s)) = hd s \<and> hd (spec_runs C s) \<noteq> []"
  by (induction C s rule: spec_runs.induct) (auto split: list.splits)

lemma re_sub_runs_dropWhile_run:
  "C c \<Longrightarrow> re_sub_runs C (c # cs) = 95 # re_sub_runs C (dropWhile C cs)"
  by simp

lemma re_sub_runs_step:
  "re_sub_runs C (c # d # cs) =
     (if C c then (if C d then re_sub_runs C (d # cs) else 95 # re_sub_runs C (d # cs))
      else c # re_sub_runs C (d # cs))"
  by simp

lemma spec_replace_runs_step:
  "spec_replace_runs C (c # d # cs) =
     (if C c then (if C d then spec_replace_runs C (d # cs) else 95 # spec_replace_runs C (d # cs))
      else c # spec_replace_runs C (d # cs))"
proof -
  obtain r rs where rs: "spec_runs C (d # cs) = r # rs"
    using spec_runs_nonempty[of "d # cs" C] by (cases "spec_runs C (d # cs)") auto
  have hd: "r \<noteq> []" "hd r = d"
    using spec_runs_hd[of "d # cs" C] rs by auto
  show ?thesis
    using hd by (cases r) (auto simp: spec_replace_runs_def rs)
qed

lemma re_sub_runs_spec: "re_sub_runs C s = spec_replace_runs C s"
proof (induction C s rule: spec_runs.induct)
  case (1 C) show ?case by (simp add: spec_replace_runs_def)
next
  case (2 C c) show ?case by (simp add: spec_replace_runs_def)
next
  case (3 C c d cs)
  from 3 have ih: "re_sub_runs C (d # cs) = spec_replace_runs C (d # cs)" by blast
  show ?case
    unfolding re_sub_runs_step spec_replace_runs_step ih ..
qed

lemma is_underscore_95: "is_underscore 95"
  by (simp add: is_underscore_def)

lemma re_sub_runs_collapse: "re_sub_runs is_underscore s = spec_collapse s"
proof (induction s rule: induct_list012)
  case 1 show ?case by simp
next
  case (2 x) show ?case by (simp add: is_underscore_def)
next
  case (3 x y zs)
  show ?case
    unfolding re_sub_runs_step 3(2) by (simp add: is_underscore_def)
qed

lemma dropWhile_hd_id: "xs = [] \<or> \<not> P (hd xs) \<Longrightarrow> dropWhile P xs = xs"
  by (cases xs) auto

lemma re_sub_runs_hd:
  "s \<noteq> [] \<Longrightarrow> \<not> C (hd s) \<Longrightarrow> re_sub_runs C s \<noteq> [] \<and> hd (re_sub_runs C s) = hd s"
  by (cases s) auto

lemma re_sub_runs_dropped_hd:
  "re_sub_runs C (dropWhile C s) = [] \<or> \<not> C (hd (re_sub_runs C (dropWhile C s)))"
proof (cases "dropWhile C s = []")
  case True then show ?thesis by (simp del: dropWhile_eq_Nil_conv)
next
  case False
  then have "\<not> C (hd (dropWhile C s))" by (simp add: hd_dropWhile)
  with False show ?thesis using re_sub_runs_hd[of "dropWhile C s" C] by simp
qed

lemma dropWhile_underscore_re_sub:
  assumes "C 95"
  shows "dropWhile is_underscore (re_sub_runs C s) = re_sub_runs C (dropWhile C s)"
proof (cases s)
  case Nil then show ?thesis by simp
next
  case (Cons c cs)
  have nu: "\<And>x. \<not> C x \<Longrightarrow> \<not> is_underscore x"
    using assms by (auto simp: is_underscore_def)
  show ?thesis
  proof (cases "C c")
    case True
    have "dropWhile is_underscore (re_sub_runs C (dropWhile C cs)) = re_sub_runs C (dropWhile C cs)"
      using re_sub_runs_dropped_hd[of C cs] nu by (intro dropWhile_hd_id) auto
    with True Cons show ?thesis by (simp add: is_underscore_95)
  next
    case False
    with Cons nu show ?thesis by simp
  qed
qed

lemma re_sub_runs_snoc:
  "re_sub_runs C (s @ [c]) =
     (if C c then (if s \<noteq> [] \<and> C (last s) then re_sub_runs C s else re_sub_runs C s @ [95])
      else re_sub_runs C s @ [c])"
proof (induction s rule: induct_list012)
  case 1 show ?case by simp
next
  case (2 x) show ?case by simp
next
  case (3 x y zs)
  have "re_sub_runs C ((x # y # zs) @ [c]) =
          (if C x then (if C y then re_sub_runs C ((y # zs) @ [c]) else 95 # re_sub_runs C ((y # zs) @ [c]))
           else x # re_sub_runs C ((y # zs) @ [c]))"
    using re_sub_runs_step[of C x y "zs @ [c]"] by simp
  also have "\<dots> = (if C c then (if C (last (x # y # zs)) then re_sub_runs C (x # y # zs)
                                 else re_sub_runs C (x # y # zs) @ [95])
                     else re_sub_runs C (x # y # zs) @ [c])"
    unfolding 3(2) re_sub_runs_step[of C x y zs] by simp
  finally show ?case by simp
qed

lemma re_sub_runs_rev: "re_sub_runs C (rev s) = rev (re_sub_runs C s)"
proof (induction s rule: induct_list012)
  case 1 show ?case by simp
next
  case (2 x) show ?case by simp
next
  case (3 x y zs)
  have "re_sub_runs C (rev (x # y # zs)) = re_sub_runs C (rev (y # zs) @ [x])" by simp
  also have "\<dots> = (if C x then (if C y then rev (re_sub_runs C (y # zs))
                                 else rev (re_sub_runs C (y # zs)) @ [95])
                     else rev (re_sub_runs C (y # zs)) @ [x])"
    unfolding re_sub_runs_snoc 3(2) by (simp add: last_rev)
  also have "\<dots> = rev (re_sub_runs C (x # y # zs))"
    unfolding re_sub_runs_step[of C x y zs] by simp
  finally show ?case .
qed

lemma strip_underscore_re_sub:
  assumes "C 95"
  shows "strip_chars is_underscore (re_sub_runs C s) = re_sub_runs C (strip_chars C s)"
  unfolding strip_chars_def
  using assms by (simp add: dropWhile_underscore_re_sub re_sub_runs_rev[symmetric])

lemma re_sub_underscore_id:
  "C 95 \<Longrightarrow> re_sub_runs is_underscore (re_sub_runs C s) = re_sub_runs C s"
proof (induction C s rule: re_sub_runs.induct)
  case (1 C) show ?case by simp
next
  case (2 C c cs)
  have nu: "\<And>x. \<not> C x \<Longrightarrow> \<not> is_underscore x"
    using 2(3) by (auto simp: is_underscore_def)
  show ?case
  proof (cases "C c")
    case True
    have "dropWhile is_underscore (re_sub_runs C (dropWhile C cs)) = re_sub_runs C (dropWhile C cs)"
      using re_sub_runs_dropped_hd[of C cs] nu by (intro dropWhile_hd_id) auto
    with True 2 show ?thesis by (simp add: is_underscore_95)
  next
    case False
    with 2 nu show ?thesis by simp
  qed
qed

lemma re_sub_runs_idem:
  "re_sub_runs C (re_sub_runs C s) = re_sub_runs C s"
proof (induction C s rule: re_sub_runs.induct)
  case (1 C) show ?case by simp
next
  case (2 C c cs)
  show ?case
  proof (cases "C c")
    case True
    have d: "dropWhile C (re_sub_runs C (dropWhile C cs)) = re_sub_runs C (dropWhile C cs)"
      using re_sub_runs_dropped_hd[of C cs] by (rule dropWhile_hd_id)
    show ?thesis
    proof (cases "C 95")
      case True
      with \<open>C c\<close> 2 d show ?thesis by simp
    next
      case False
      with \<open>C c\<close> 2 show ?thesis by simp
    qed
  next
    case False
    with 2 show ?thesis by simp
  qed
qed

lemma dropWhile_absorb:
  "(\<And>c. W c \<Longrightarrow> N c) \<Longrightarrow> dropWhile N (dropWhile W s) = dropWhile N s"
  by (induction s) auto

lemma rstrip_Cons:
  "rev (dropWhile Q (rev (x # xs))) =
     (if rev (dropWhile Q (rev xs)) = [] then (if Q x then [] else [x])
      else x # rev (dropWhile Q (rev xs)))"
  by (auto simp: dropWhile_append)

lemma dropWhile_rstrip_commute:
  "dropWhile P (rev (dropWhile Q (rev s))) = rev (dropWhile Q (rev (dropWhile P s)))"
proof (induction s)
  case Nil show ?case by simp
next
  case (Cons x xs)
  show ?case
  proof (cases "P x")
    case True
    then have "rev (dropWhile Q (rev (dropWhile P (x # xs)))) = dropWhile P (rev (dropWhile Q (rev xs)))"
      using Cons by simp
    moreover have "dropWhile P (rev (dropWhile Q (rev (x # xs)))) = dropWhile P (rev (dropWhile Q (rev xs)))"
      unfolding rstrip_Cons using True
      by (cases "dropWhile Q (rev xs) = []") (simp_all del: dropWhile_eq_Nil_conv)
    ultimately show ?thesis by simp
  next
    case False
    have "dropWhile P (rev (dropWhile Q (rev (x # xs)))) = rev (dropWhile Q (rev (x # xs)))"
      unfolding rstrip_Cons using False by simp
    then show ?thesis by (simp only: dropWhile.simps False if_False)
  qed
qed

lemma strip_chars_absorb:
  assumes "\<And>c. W c \<Longrightarrow> N c"
  shows "strip_chars N (strip_chars W s) = strip_chars N s"
proof -
  have "dropWhile N (rev (dropWhile W (rev (dropWhile W s))))
          = rev (dropWhile W (rev (dropWhile N (dropWhile W s))))"
    by (rule dropWhile_rstrip_commute)
  also have "\<dots> = rev (dropWhile W (rev (dropWhile N s)))"
    using assms by (simp add: dropWhile_absorb)
  finally have "strip_chars N (strip_chars W s)
                  = rev (dropWhile N (dropWhile W (rev (dropWhile N s))))"
    by (simp add: strip_chars_def)
  then show ?thesis
    using assms by (simp add: strip_chars_def dropWhile_absorb)
qed

lemma not_az09_95: "not_az09 95"
  by (simp add: not_az09_def is_az09_def)

lemma isspace_not_az09: "py_isspace c \<Longrightarrow> not_az09 c"
  by (auto simp: py_isspace_def not_az09_def is_az09_def)

text \<open>The key is the text between the outermost characters of \<^verbatim>\<open>[a-z0-9]\<close>, with
  every run of other characters replaced.\<close>

lemma slugify_normal_form:
  "slugify name = re_sub_runs not_az09 (strip_chars not_az09 (py_lower name))"
proof -
  have "slugify name =
          strip_chars is_underscore (re_sub_runs not_az09 (strip_chars py_isspace (py_lower name)))"
    by (simp add: slugify_def Let_def py_strip_def re_sub_underscore_id not_az09_95)
  also have "\<dots> = re_sub_runs not_az09 (strip_chars not_az09 (strip_chars py_isspace (py_lower name)))"
    by (simp add: strip_underscore_re_sub not_az09_95)
  also have "\<dots> = re_sub_runs not_az09 (strip_chars not_az09 (py_lower name))"
    by (simp add: strip_chars_absorb isspace_not_az09)
  finally show ?thesis .
qed

lemma spec_slugify_normal_form:
  "spec_slugify name = re_sub_runs not_az09 (strip_chars not_az09 (py_lower name))"
  by (simp add: spec_slugify_def re_sub_runs_spec[symmetric] re_sub_runs_collapse[symmetric]
                re_sub_underscore_id strip_underscore_re_sub not_az09_95)

lemma strip_chars_all: "\<forall>c\<in>set s. P c \<Longrightarrow> strip_chars P s = []"
proof -
  assume "\<forall>c\<in>set s. P c"
  then have "dropWhile P s = []" by simp
  then show ?thesis by (simp only: strip_chars_def dropWhile.simps rev.simps)
qed

lemma set_re_sub_runs: "set (re_sub_runs C s) \<subseteq> {c \<in> set s. \<not> C c} \<union> {95}"
proof (induction C s rule: re_sub_runs.induct)
  case (1 C) show ?case by simp
next
  case (2 C c cs)
  show ?case
  proof (cases "C c")
    case True
    with 2 have "set (re_sub_runs C (dropWhile C cs)) \<subseteq> {x \<in> set (dropWhile C cs). \<not> C x} \<union> {95}"
      by simp
    moreover have "set (dropWhile C cs) \<subseteq> set cs" by (auto dest: set_dropWhileD)
    ultimately show ?thesis using True by auto
  next
    case False
    with 2 show ?thesis by auto
  qed
qed

lemma py_lower_fixed: "\<forall>c\<in>set s. lower_cp c = [c] \<Longrightarrow> py_lower s = s"
  by (induction s) (auto simp: py_lower_def)

lemma lower_cp_slug_char: "is_az09 c \<or> c = 95 \<Longrightarrow> lower_cp c = [c]"
  by (auto simp: lower_cp_def is_az09_def)

lemma strip_chars_ends:
  "strip_chars C s = [] \<or> (\<not> C (hd (strip_chars C s)) \<and> \<not> C (last (strip_chars C s)))"
proof (cases "strip_chars C s = []")
  case True then show ?thesis by simp
next
  case False
  let ?Y = "dropWhile C s"
  let ?M = "strip_chars C s"
  have M: "?M = rev (dropWhile C (rev ?Y))" by (simp add: strip_chars_def)
  have "?Y = rev (takeWhile C (rev ?Y) @ dropWhile C (rev ?Y))"
    by (simp only: takeWhile_dropWhile_id rev_rev_ident)
  also have "\<dots> = ?M @ rev (takeWhile C (rev ?Y))"
    unfolding M by (simp only: rev_append)
  finally have Y: "?Y = ?M @ rev (takeWhile C (rev ?Y))" .
  have "hd (?M @ rev (takeWhile C (rev ?Y))) = hd ?M"
    using False by (rule hd_append2)
  with Y have hdeq: "hd ?Y = hd ?M" by simp
  have Yne: "?Y \<noteq> []"
  proof
    assume y: "?Y = []"
    have "?M = []" unfolding M y by simp
    with False show False by simp
  qed
  then have hY: "\<not> C (hd ?Y)" by (rule hd_dropWhile)
  have dne: "dropWhile C (rev ?Y) \<noteq> []" using False unfolding M by simp
  then have "\<not> C (hd (dropWhile C (rev ?Y)))" by (rule hd_dropWhile)
  moreover have "last ?M = hd (dropWhile C (rev ?Y))"
    unfolding M using dne by (simp only: last_rev)
  ultimately have "\<not> C (last ?M)" by simp
  with hdeq hY show ?thesis by simp
qed

lemma strip_chars_fixed:
  "s = [] \<or> (\<not> C (hd s) \<and> \<not> C (last s)) \<Longrightarrow> strip_chars C s = s"
proof (cases "s = []")
  case True then show ?thesis by (simp add: strip_chars_def)
next
  case False
  assume "s = [] \<or> (\<not> C (hd s) \<and> \<not> C (last s))"
  with False have h: "\<not> C (hd s)" "\<not> C (last s)" by auto
  have 1: "dropWhile C s = s" using h(1) by (intro dropWhile_hd_id) simp
  have 2: "dropWhile C (rev s) = rev s" using h(2) False by (intro dropWhile_hd_id) (simp add: hd_rev)
  show ?thesis by (simp add: strip_chars_def 1 2)
qed

lemma re_sub_runs_ends:
  assumes "s \<noteq> []" "\<not> C (hd s)" "\<not> C (last s)"
  shows "re_sub_runs C s \<noteq> [] \<and> hd (re_sub_runs C s) = hd s \<and> last (re_sub_runs C s) = last s"
proof -
  have a: "re_sub_runs C s \<noteq> [] \<and> hd (re_sub_runs C s) = hd s"
    using assms re_sub_runs_hd by blast
  have "re_sub_runs C (rev s) \<noteq> [] \<and> hd (re_sub_runs C (rev s)) = hd (rev s)"
    using assms by (intro re_sub_runs_hd) (simp_all add: hd_rev)
  then have "hd (rev (re_sub_runs C s)) = last s"
    using assms by (simp add: re_sub_runs_rev hd_rev)
  with a show ?thesis by (simp add: hd_rev)
qed

lemma slugify_fixed_on_keys:
  "slugify (re_sub_runs not_az09 (strip_chars not_az09 s)) = re_sub_runs not_az09 (strip_chars not_az09 s)"
proof -
  let ?M = "strip_chars not_az09 s"
  let ?o = "re_sub_runs not_az09 ?M"
  have "\<forall>c\<in>set ?o. is_az09 c \<or> c = 95"
    using set_re_sub_runs[of not_az09 ?M] by (auto simp: not_az09_def)
  then have low: "py_lower ?o = ?o"
    by (intro py_lower_fixed) (simp add: lower_cp_slug_char)
  have st: "strip_chars not_az09 ?o = ?o"
  proof (cases "?M = []")
    case True show ?thesis unfolding True by (simp add: strip_chars_def)
  next
    case False
    with strip_chars_ends[of not_az09 s]
    have "\<not> not_az09 (hd ?M)" "\<not> not_az09 (last ?M)" by auto
    with False re_sub_runs_ends[of ?M not_az09] show ?thesis
      by (intro strip_chars_fixed) simp
  qed
  show ?thesis
    unfolding slugify_normal_form[of ?o] low st by (rule re_sub_runs_idem)
qed

text \<open>
  Claim C5. For every name, \<^verbatim>\<open>slugify\<close> returns what the reference description
  returns: the lower-case name with every maximal run of characters outside
  \<^verbatim>\<open>[a-z0-9]\<close> replaced by one underscore, repeated underscores collapsed, and the
  leading and trailing underscores removed. A name whose lower-case form has no
  character of \<^verbatim>\<open>[a-z0-9]\<close> gives the empty key.
\<close>

theorem slugify_matches_reference:
  "slugify name = spec_slugify name \<and>
   ((\<forall>c \<in> set (py_lower name). \<not> is_az09 c) \<longrightarrow> slugify name = [])"
proof
  show "slugify name = spec_slugify name"
    by (simp add: slugify_normal_form spec_slugify_normal_form)
  show "(\<forall>c \<in> set (py_lower name). \<not> is_az09 c) \<longrightarrow> slugify name = []"
    by (simp add: slugify_normal_form strip_chars_all not_az09_def)
qed

theorem slugify_matches_reference_witness:
  "slugify (str ''?! -'') = spec_slugify (str ''?! -'') \<and>
   filter is_az09 (py_lower (str ''?! -'')) = [] \<and> slugify (str ''?! -'') = []"
proof -
  have pre: "\<forall>c \<in> set (py_lower (str ''?! -'')). \<not> is_az09 c"
    by (simp add: str_def py_lower_def lower_cp_def is_az09_def)
  then have "filter is_az09 (py_lower (str ''?! -'')) = []"
    by (simp only: filter_False)
  with pre slugify_matches_reference [of "str ''?! -''"] show ?thesis by blast
qed

text \<open>
  Claim C6. \<^verbatim>\<open>slugify\<close> is idempotent: the key of a key is that key.
\<close>

theorem slugify_idempotent: "slugify (slugify name) = slugify name"
  unfolding slugify_normal_form[of name] by (rule slugify_fixed_on_keys)

section \<open>Writing and reading a record\<close>

lemma universal_newlines_id: "13 \<notin> set s \<Longrightarrow> universal_newlines s = s"
  by (induction s rule: universal_newlines.induct) auto

lemma splitlines_from_char:
  "\<not> is_linebreak c \<Longrightarrow> s \<noteq> [] \<Longrightarrow> splitlines_from cur (c # s) = splitlines_from (cur @ [c]) s"
  by (cases s) (auto simp: is_linebreak_def)

lemma splitlines_from_lf: "splitlines_from cur (10 # s) = cur # splitlines_from [] s"
  by (cases s) (auto simp: is_linebreak_def)

lemma splitlines_from_line:
  "\<forall>c\<in>set t. \<not> is_linebreak c \<Longrightarrow>
   splitlines_from cur (t @ 10 # rest) = (cur @ t) # splitlines_from [] rest"
proof (induction t arbitrary: cur)
  case Nil show ?case by (simp add: splitlines_from_lf)
next
  case (Cons c t)
  then have "splitlines_from cur (c # (t @ 10 # rest)) = splitlines_from (cur @ [c]) (t @ 10 # rest)"
    by (intro splitlines_from_char) auto
  with Cons show ?case by simp
qed

lemma py_join_Cons: "xs \<noteq> [] \<Longrightarrow> py_join sep (x # xs) = x @ sep @ py_join sep xs"
  by (cases xs) auto

lemma splitlines_from_nonempty: "s \<noteq> [] \<Longrightarrow> splitlines_from cur s \<noteq> []"
  by (induction cur s rule: splitlines_from.induct) auto

lemma splitlines_from_lf_end_nonempty: "splitlines_from cur (s @ [10]) \<noteq> []"
  by (rule splitlines_from_nonempty) simp

lemma join_splitlines_lf:
  "\<forall>c\<in>set s. is_linebreak c \<longrightarrow> c = 10 \<Longrightarrow>
   py_join [10] (splitlines_from cur (s @ [10])) = cur @ s"
proof (induction s arbitrary: cur)
  case Nil show ?case by (simp add: is_linebreak_def)
next
  case (Cons c s)
  show ?case
  proof (cases "c = 10")
    case True
    have "splitlines_from cur ((c # s) @ [10]) = cur # splitlines_from [] (s @ [10])"
      unfolding True by (simp only: append_Cons splitlines_from_lf)
    moreover have "py_join [10] (splitlines_from [] (s @ [10])) = [] @ s"
      using Cons.prems by (intro Cons.IH) simp
    ultimately show ?thesis
      using True by (simp only: py_join_Cons[OF splitlines_from_lf_end_nonempty] append_Nil append_Cons append_assoc)
  next
    case False
    with Cons.prems have "\<not> is_linebreak c" by auto
    then have "splitlines_from cur (c # (s @ [10])) = splitlines_from (cur @ [c]) (s @ [10])"
      by (intro splitlines_from_char) auto
    with Cons show ?thesis by simp
  qed
qed

lemma lf_code: "str [CHR 0x0A] = [10]"
  by (simp add: str_def)

lemma linebreak_13: "is_linebreak 13"
  by (simp add: is_linebreak_def)

lemma read_record_text:
  assumes t: "\<forall>c\<in>set t. \<not> is_linebreak c" "py_strip t = t"
      and p: "\<forall>c\<in>set p. \<not> is_linebreak c" "py_strip p = p" "p \<noteq> []"
      and n: "\<forall>c\<in>set notes. is_linebreak c \<longrightarrow> c = 10"
  shows "read_node (record_text t (Some p) notes) = \<lparr>n_type = t, n_parent = p, n_notes = notes\<rparr>"
proof (cases "notes = []")
  case True
  have raw: "record_text t (Some p) notes = t @ 10 # p @ 10 # []"
    using True p(3) by (simp add: record_text_def lf_code)
  have "13 \<notin> set (t @ 10 # p @ 10 # [])"
    using t(1) p(1) linebreak_13 by auto
  then have un: "universal_newlines (t @ 10 # p @ 10 # []) = t @ 10 # p @ 10 # []"
    by (rule universal_newlines_id)
  have "splitlines (t @ 10 # p @ 10 # []) = [t, p]"
    using t(1) p(1) by (simp add: splitlines_def splitlines_from_line)
  then show ?thesis
    unfolding raw read_node_def un using True t(2) p(2) by simp
next
  case False
  have raw: "record_text t (Some p) notes = t @ 10 # p @ 10 # notes @ [10]"
    using False p(3) by (simp add: record_text_def lf_code)
  have "13 \<notin> set (t @ 10 # p @ 10 # notes @ [10])"
    using t(1) p(1) n linebreak_13 by auto
  then have un: "universal_newlines (t @ 10 # p @ 10 # notes @ [10]) = t @ 10 # p @ 10 # notes @ [10]"
    by (rule universal_newlines_id)
  let ?L = "splitlines_from [] (notes @ [10])"
  have sp: "splitlines (t @ 10 # p @ 10 # notes @ [10]) = t # p # ?L"
    using t(1) p(1) by (simp add: splitlines_def splitlines_from_line)
  have ne: "?L \<noteq> []" by (rule splitlines_from_lf_end_nonempty)
  have j: "py_join [10] ?L = notes" using join_splitlines_lf[OF n, of "[]"] by simp
  show ?thesis
    unfolding raw read_node_def un sp using ne t(2) p(2) j by (simp add: lf_code)
qed

lemma file_text_after_add:
  "force \<or> file_text st (node_file name) = None \<Longrightarrow>
   cmd_add st dp name t p notes force =
     (0, [str ''Created node: '' @ node_path dp name],
      Some (AList.update (node_file name) (record_text t p notes) (case st of None \<Rightarrow> [] | Some d \<Rightarrow> d)))"
  by (auto simp: cmd_add_def file_text_def split: option.splits)

text \<open>
  Claim C4, as amended. A type and a parent without line boundary and without leading
  or trailing white space, the parent not empty, and notes whose only line boundaries
  are \<^verbatim>\<open>\n\<close>, are read back from the record that \<^verbatim>\<open>cmd_add\<close> writes exactly as
  they were given.
\<close>

theorem add_then_read_roundtrip:
  assumes "\<forall>c\<in>set t. \<not> is_linebreak c" "py_strip t = t"
      and "\<forall>c\<in>set p. \<not> is_linebreak c" "py_strip p = p" "p \<noteq> []"
      and "\<forall>c\<in>set notes. is_linebreak c \<longrightarrow> c = 10"
      and "force \<or> file_text st (node_file name) = None"
  shows "map_option read_node
           (file_text (snd (snd (cmd_add st dp name t (Some p) notes force))) (node_file name))
         = Some \<lparr>n_type = t, n_parent = p, n_notes = notes\<rparr>"
  using assms(7) read_record_text[OF assms(1-6)]
  by (simp add: file_text_after_add file_text_def update_conv')

theorem add_then_read_roundtrip_witness:
  "map_option read_node
     (file_text (snd (snd (cmd_add None (str ''/w'') (str ''Edoras'') (str ''Kingdom'') (Some (str ''/continents'')) (str ''Horse lords.'' @ [10] @ str ''Capital: Meduseld'') False)))
       (node_file (str ''Edoras'')))
   = Some \<lparr>n_type = str ''Kingdom'', n_parent = str ''/continents'', n_notes = str ''Horse lords.'' @ [10] @ str ''Capital: Meduseld''\<rparr>"
  by (rule add_then_read_roundtrip)
     (simp_all add: str_def is_linebreak_def py_strip_def strip_chars_def py_isspace_def file_text_def)

text \<open>
  The claim as stated fails: reading strips the type, so a type that starts with a
  blank comes back without it.
\<close>

theorem roundtrip_type_counterexample:
  "map_option read_node
     (file_text (snd (snd (cmd_add None (str ''/w'') (str ''Edoras'') (str '' Kingdom'') (Some (str ''-'')) [] False)))
       (node_file (str ''Edoras'')))
   = Some \<lparr>n_type = str ''Kingdom'', n_parent = str ''-'', n_notes = []\<rparr>
   \<and> str ''Kingdom'' \<noteq> str '' Kingdom''"
  by (simp add: cmd_add_def file_text_def update_conv' read_node_def record_text_def splitlines_def
        str_def is_linebreak_def py_strip_def strip_chars_def py_isspace_def)

section \<open>Refusals of \<^verbatim>\<open>add\<close> and \<^verbatim>\<open>show\<close>\<close>

text \<open>
  Claim C7. When the record of the key exists and \<^verbatim>\<open>force\<close> is not given, \<^verbatim>\<open>cmd_add\<close>
  returns 1, prints the refusal with the path of the record, and leaves the directory,
  and so the record, as it was.
\<close>

theorem add_refuses_existing:
  "file_text st (node_file name) = Some old \<Longrightarrow>
   cmd_add st dp name t p notes False =
     (1, [str ''Refusing to overwrite existing node: '' @ node_path dp name], st)"
  by (cases st) (auto simp: cmd_add_def file_text_def)

theorem add_refuses_existing_witness:
  "node_path (str ''/w'') (str ''Edoras'') = str ''/w/edoras.txt''
   \<and> cmd_add (Some dir_edoras) (str ''/w'') (str ''Edoras'') (str ''Town'') None (str ''moved'') False
       = (1, [str ''Refusing to overwrite existing node: /w/edoras.txt''], Some dir_edoras)"
proof -
  have p: "node_path (str ''/w'') (str ''Edoras'') = str ''/w/edoras.txt''"
    by (simp add: eval_defs)
  have f: "file_text (Some dir_edoras) (node_file (str ''Edoras'')) = Some (str ''Kingdom'' @ [10] @ str ''-'' @ [10])"
    by (simp add: eval_defs dir_edoras_def)
  from add_refuses_existing[OF f, of "str ''/w''" "str ''Town''" None "str ''moved''"] p show ?thesis
    by (simp add: str_def)
qed

text \<open>
  Claim C9. When the key of the name has no record, \<^verbatim>\<open>cmd_show\<close> returns 1 and prints
  the one line \<^verbatim>\<open>Node not found:\<close> with the path of the record, and nothing else.
\<close>

theorem show_missing_node:
  "file_text st (node_file name) = None \<Longrightarrow>
   cmd_show st dp name = (1, [str ''Node not found: '' @ node_path dp name])"
  by (simp add: cmd_show_def)

theorem show_missing_node_witness:
  "node_path (str ''/w'') (str ''Minas Tirith'') = str ''/w/minas_tirith.txt''
   \<and> cmd_show (Some dir_edoras) (str ''/w'') (str ''Minas Tirith'')
       = (1, [str ''Node not found: /w/minas_tirith.txt''])
   \<and> cmd_show None (str ''/w'') (str ''Minas Tirith'')
       = (1, [str ''Node not found: /w/minas_tirith.txt''])"
proof -
  have p: "node_path (str ''/w'') (str ''Minas Tirith'') = str ''/w/minas_tirith.txt''"
    by (simp add: eval_defs)
  have f: "file_text (Some dir_edoras) (node_file (str ''Minas Tirith'')) = None"
    by (simp add: eval_defs dir_edoras_def)
  have g: "file_text None (node_file (str ''Minas Tirith'')) = None"
    by (simp add: file_text_def)
  from show_missing_node[OF f, of "str ''/w''"] show_missing_node[OF g, of "str ''/w''"] p show ?thesis
    by (simp add: str_def)
qed

section \<open>Properties of the index\<close>

lemma children_get_update:
  "children_get (AList.update p v cs) k = (if k = p then v else children_get cs k)"
  by (simp add: children_get_def update_conv')

lemma children_get_Nil: "children_get [] k = []"
  by (simp add: children_get_def)

lemma index_step_children:
  "children_get (snd (index_step r acc)) k =
     children_get (snd acc) k @ (if rec_group r = k then [rec_key r] else [])"
  by (auto simp: index_step_def Let_def children_get_update rec_group_def rec_key_def)

lemma index_step_nodes:
  "fst (index_step r acc) = AList.update (rec_key r) (read_node (snd r)) (fst acc)"
  by (simp add: index_step_def Let_def rec_key_def)

lemma fold_index_children:
  "children_get (snd (fold index_step recs acc)) k =
     children_get (snd acc) k @ map rec_key (filter (\<lambda>r. rec_group r = k) recs)"
  by (induction recs arbitrary: acc) (simp_all add: index_step_children)



lemma children_get_sorted:
  "children_get (map (\<lambda>(k, v). (k, sort_key lower v)) cs) k = sort_key lower (children_get cs k)"
  by (simp add: children_get_def map_of_map split: option.split)

lemma build_index_children:
  "children_get (snd (build_index lower d)) k =
     sort_key lower (map rec_key (filter (\<lambda>r. rec_group r = k) (iter_nodes d)))"
  by (simp add: build_index_def Let_def children_get_sorted fold_index_children children_get_Nil)


lemma build_index_keys: "fst ` set (fst (build_index lower d)) = rec_key ` set (iter_nodes d)"
proof -
  have "fst ` set (fst (fold index_step recs acc)) = fst ` set (fst acc) \<union> rec_key ` set recs"
    for recs acc
    by (induction recs arbitrary: acc) (auto simp: index_step_nodes dom_update)
  then show ?thesis by (simp add: build_index_def Let_def)
qed



lemma build_index_edoras:
  "build_index py_lower dir_edoras =
     ([(str ''Gondor'', \<lparr>n_type = str ''Kingdom'', n_parent = [], n_notes = []\<rparr>),
       (str ''edoras'', \<lparr>n_type = str ''Kingdom'', n_parent = str ''-'', n_notes = []\<rparr>),
       (str ''rohan'', \<lparr>n_type = str ''Continent'', n_parent = str ''edoras'', n_notes = []\<rparr>)],
      [(None, [str ''edoras'', str ''Gondor'']), (Some (str ''edoras''), [str ''rohan''])])"
  by (simp add: dir_edoras_def eval_defs)



section \<open>Properties of the renderer\<close>

lemma slash_code: "str ''/'' = [47]"
  by (simp add: str_def)

lemma set_first_seen: "set (first_seen xs) = set xs"
  by (induction xs) auto

lemma distinct_first_seen: "distinct (first_seen xs)"
  by (induction xs) (auto simp: set_first_seen)

lemma first_seen_append:
  "first_seen (xs @ ys) = first_seen xs @ filter (\<lambda>y. y \<notin> set xs) (first_seen ys)"
proof (induction xs)
  case Nil show ?case by simp
next
  case (Cons x xs)
  have "filter (\<lambda>y. y \<noteq> x) (filter (\<lambda>y. y \<notin> set xs) (first_seen ys))
          = filter (\<lambda>y. y \<notin> set (x # xs)) (first_seen ys)"
    by (auto simp: filter_filter intro: filter_cong)
  with Cons show ?case by simp
qed

lemma first_seen_absorb: "first_seen (xs @ ys @ ys) = first_seen (xs @ ys)"
proof -
  have "filter (\<lambda>y. y \<notin> set (xs @ ys)) (first_seen ys) = []"
    by (auto simp: filter_empty_conv set_first_seen)
  then show ?thesis using first_seen_append[of "xs @ ys" ys] by simp
qed

lemma dedup_loop_first_seen:
  "dedup_loop ks seen acc = acc @ filter (\<lambda>k. k \<notin> seen) (first_seen ks)"
proof (induction ks arbitrary: seen acc)
  case Nil show ?case by simp
next
  case (Cons k ks)
  show ?case
  proof (cases "k \<in> seen")
    case True
    have "filter (\<lambda>y. y \<notin> seen) (filter (\<lambda>y. y \<noteq> k) (first_seen ks))
            = filter (\<lambda>y. y \<notin> seen) (first_seen ks)"
      using True by (auto simp: filter_filter intro: filter_cong)
    with True Cons show ?thesis by simp
  next
    case False
    have "filter (\<lambda>y. y \<notin> seen) (filter (\<lambda>y. y \<noteq> k) (first_seen ks))
            = filter (\<lambda>y. y \<notin> insert k seen) (first_seen ks)"
      by (auto simp: filter_filter intro: filter_cong)
    with False Cons show ?thesis by simp
  qed
qed

lemma dedup_loop_spec: "dedup_loop ks {} [] = first_seen ks"
  by (simp add: dedup_loop_first_seen)

lemma fst_lookup_kids:
  "fst (lookup_kids ch name) = children_get ch (Some (str ''/'' @ name)) @ children_get ch (Some name)"
  by (simp add: lookup_kids_def children_get_def slash_code Let_def split: option.split)

lemma display_Suc:
  "display (Suc fuel) nodes ch name prefix =
     (case display_children (display fuel nodes) prefix (dual_lookup ch name) (snd (lookup_kids ch name)) of
        None \<Rightarrow> None
      | Some (out, ch') \<Rightarrow> Some ((prefix @ node_label nodes name) # out, ch'))"
  by (simp add: Let_def dedup_loop_spec fst_lookup_kids dual_lookup_def node_label_def
           split: option.split)

lemma lookup_kids_dual:
  assumes "\<not> starts_slash m"
  shows "dual_lookup (snd (lookup_kids ch n)) m = dual_lookup ch m"
proof (cases "map_of ch (Some (47 # n))")
  case None
  then show ?thesis by (simp add: lookup_kids_def)
next
  case (Some stored)
  have st: "children_get ch (Some (47 # n)) = stored"
    using Some by (simp add: children_get_def)
  have snd: "snd (lookup_kids ch n) = AList.update (Some (47 # n)) (stored @ children_get ch (Some n)) ch"
    using Some by (simp add: lookup_kids_def Let_def)
  have m: "m \<noteq> 47 # n" using assms by (auto simp: starts_slash_def slash_code)
  show ?thesis
  proof (cases "m = n")
    case True
    show ?thesis
      unfolding dual_lookup_def snd slash_code
      using m True st by (simp add: children_get_update first_seen_absorb)
  next
    case False
    with m show ?thesis
      unfolding dual_lookup_def snd slash_code by (simp add: children_get_update)
  qed
qed

lemma display_children_keeps:
  assumes rec: "\<And>ch c p out ch'. c \<in> set cs \<Longrightarrow> rec ch c p = Some (out, ch') \<Longrightarrow>
                  \<forall>m. \<not> starts_slash m \<longrightarrow> dual_lookup ch' m = dual_lookup ch m"
      and "display_children rec prefix cs ch = Some (out, ch')"
  shows "\<forall>m. \<not> starts_slash m \<longrightarrow> dual_lookup ch' m = dual_lookup ch m"
  using assms
proof (induction cs arbitrary: ch out ch')
  case Nil then show ?case by simp
next
  case (Cons c cs)
  from Cons.prems(2) obtain o1 ch1 o2 where
    1: "rec ch c (prefix @ (if cs = [] then glyph_last else glyph_branch)) = Some (o1, ch1)"
    and 2: "display_children rec prefix cs ch1 = Some (o2, ch')"
    by (auto simp: Let_def split: option.splits)
  from Cons.prems(1)[OF _ 1] have a: "\<forall>m. \<not> starts_slash m \<longrightarrow> dual_lookup ch1 m = dual_lookup ch m"
    by simp
  have b: "\<forall>m. \<not> starts_slash m \<longrightarrow> dual_lookup ch' m = dual_lookup ch1 m"
    by (rule Cons.IH[OF _ 2]) (auto dest: Cons.prems(1)[rotated])
  from a b show ?case by simp
qed

lemma display_keeps:
  "display fuel nodes ch name prefix = Some (out, ch') \<Longrightarrow>
   \<forall>m. \<not> starts_slash m \<longrightarrow> dual_lookup ch' m = dual_lookup ch m"
proof (induction fuel arbitrary: ch name prefix out ch')
  case 0 then show ?case by simp
next
  case (Suc fuel)
  from Suc.prems obtain o1 where
    1: "display_children (display fuel nodes) prefix (dual_lookup ch name) (snd (lookup_kids ch name)) = Some (o1, ch')"
    unfolding display_Suc by (auto split: option.splits)
  have "\<forall>m. \<not> starts_slash m \<longrightarrow> dual_lookup ch' m = dual_lookup (snd (lookup_kids ch name)) m"
    by (rule display_children_keeps[OF _ 1]) (rule Suc.IH)
  then show ?case by (simp add: lookup_kids_dual)
qed

lemma agrees_refl: "agrees ch ch"
  by (simp add: agrees_def)

lemma display_agrees:
  "display fuel nodes ch name prefix = Some (out, ch') \<Longrightarrow> agrees ch0 ch \<Longrightarrow> agrees ch0 ch'"
  using display_keeps[of fuel nodes ch name prefix out ch'] by (simp add: agrees_def)

lemma lookup_kids_agrees: "agrees ch0 ch \<Longrightarrow> agrees ch0 (snd (lookup_kids ch n))"
  by (simp add: agrees_def lookup_kids_dual)

lemma display_children_mono:
  assumes "\<And>ch c p r. rec ch c p = Some r \<Longrightarrow> rec' ch c p = Some r"
      and "display_children rec prefix cs ch = Some r"
  shows "display_children rec' prefix cs ch = Some r"
  using assms(2)
proof (induction cs arbitrary: ch r)
  case Nil then show ?case by simp
next
  case (Cons c cs)
  from Cons.prems obtain o1 ch1 o2 ch2 where
    1: "rec ch c (prefix @ (if cs = [] then glyph_last else glyph_branch)) = Some (o1, ch1)"
    and 2: "display_children rec prefix cs ch1 = Some (o2, ch2)"
    and r: "r = (o1 @ o2, ch2)"
    by (auto simp: Let_def split: option.splits)
  from assms(1)[OF 1] Cons.IH[OF 2] r show ?case by (simp add: Let_def)
qed

lemma display_mono_Suc:
  "display fuel nodes ch name prefix = Some r \<Longrightarrow> display (Suc fuel) nodes ch name prefix = Some r"
proof (induction fuel arbitrary: ch name prefix r)
  case 0 then show ?case by simp
next
  case (Suc fuel)
  from Suc.prems obtain o1 ch1 where
    1: "display_children (display fuel nodes) prefix (dual_lookup ch name) (snd (lookup_kids ch name)) = Some (o1, ch1)"
    and r: "r = ((prefix @ node_label nodes name) # o1, ch1)"
    unfolding display_Suc[of fuel] by (auto split: option.splits)
  have "display_children (display (Suc fuel) nodes) prefix (dual_lookup ch name) (snd (lookup_kids ch name)) = Some (o1, ch1)"
    by (rule display_children_mono[OF _ 1]) (rule Suc.IH)
  then show ?case unfolding display_Suc[of "Suc fuel"] r by simp
qed

lemma display_mono:
  "display fuel nodes ch name prefix = Some r \<Longrightarrow> fuel \<le> fuel' \<Longrightarrow>
   display fuel' nodes ch name prefix = Some r"
proof (induction fuel' )
  case 0 then show ?case by simp
next
  case (Suc fuel')
  show ?case
  proof (cases "fuel = Suc fuel'")
    case True with Suc.prems show ?thesis by simp
  next
    case False
    with Suc.prems have "fuel \<le> fuel'" by simp
    with Suc have "display fuel' nodes ch name prefix = Some r" by simp
    then show ?thesis by (rule display_mono_Suc)
  qed
qed

lemma display_children_total:
  assumes "\<And>c ch p. c \<in> set cs \<Longrightarrow> agrees ch0 ch \<Longrightarrow> \<exists>fuel r. display fuel nodes ch c p = Some r"
      and "agrees ch0 ch"
  shows "\<exists>fuel out ch'. display_children (display fuel nodes) prefix cs ch = Some (out, ch') \<and> agrees ch0 ch'"
  using assms
proof (induction cs arbitrary: ch)
  case Nil then show ?case by simp
next
  case (Cons c cs)
  let ?p = "prefix @ (if cs = [] then glyph_last else glyph_branch)"
  from Cons.prems(1)[of c ch ?p] Cons.prems(2) obtain f1 o1 ch1 where
    1: "display f1 nodes ch c ?p = Some (o1, ch1)" by auto
  then have a1: "agrees ch0 ch1" using Cons.prems(2) by (rule display_agrees)
  have "\<exists>fuel out ch'. display_children (display fuel nodes) prefix cs ch1 = Some (out, ch') \<and> agrees ch0 ch'"
  proof (rule Cons.IH[OF _ a1])
    fix c' ch' p assume "c' \<in> set cs" "agrees ch0 ch'"
    then show "\<exists>fuel r. display fuel nodes ch' c' p = Some r"
      using Cons.prems(1)[of c' ch' p] by simp
  qed
  then obtain f2 o2 ch2 where
    2: "display_children (display f2 nodes) prefix cs ch1 = Some (o2, ch2)" and a2: "agrees ch0 ch2"
    by auto
  let ?f = "max f1 f2"
  have d1: "display ?f nodes ch c ?p = Some (o1, ch1)"
    using 1 by (rule display_mono) simp
  have d2: "display_children (display ?f nodes) prefix cs ch1 = Some (o2, ch2)"
    by (rule display_children_mono[OF _ 2]) (erule display_mono, simp)
  have "display_children (display ?f nodes) prefix (c # cs) ch = Some (o1 @ o2, ch2)"
    using d1 d2 by (simp add: Let_def)
  with a2 show ?case by blast
qed

lemma display_total:
  assumes wf: "wf {(c, n). \<not> starts_slash n \<and> c \<in> set (dual_lookup ch0 n)}"
      and closed: "\<And>n c. \<not> starts_slash n \<Longrightarrow> c \<in> set (dual_lookup ch0 n) \<Longrightarrow> \<not> starts_slash c"
  shows "\<not> starts_slash name \<Longrightarrow> agrees ch0 ch \<Longrightarrow>
         \<exists>fuel out ch'. display fuel nodes ch name prefix = Some (out, ch') \<and> agrees ch0 ch'"
  using wf
proof (induction name arbitrary: ch prefix rule: wf_induct_rule)
  case (less name)
  have ag: "agrees ch0 (snd (lookup_kids ch name))"
    using less.prems(2) by (rule lookup_kids_agrees)
  have dl: "dual_lookup ch name = dual_lookup ch0 name"
    using less.prems by (simp add: agrees_def)
  have "\<exists>fuel out ch'. display_children (display fuel nodes) prefix (dual_lookup ch name)
            (snd (lookup_kids ch name)) = Some (out, ch') \<and> agrees ch0 ch'"
  proof (rule display_children_total[OF _ ag])
    fix c ch1 p assume c: "c \<in> set (dual_lookup ch name)" and a: "agrees ch0 ch1"
    from c dl have c0: "c \<in> set (dual_lookup ch0 name)" by simp
    have "\<not> starts_slash c" using closed[OF less.prems(1) c0] .
    with less.IH[of c ch1 p] c0 less.prems(1) a
    show "\<exists>fuel r. display fuel nodes ch1 c p = Some r" by auto
  qed
  then obtain f out ch' where
    "display_children (display f nodes) prefix (dual_lookup ch name) (snd (lookup_kids ch name)) = Some (out, ch')"
    and "agrees ch0 ch'" by auto
  then have "display (Suc f) nodes ch name prefix = Some ((prefix @ node_label nodes name) # out, ch') \<and> agrees ch0 ch'"
    unfolding display_Suc by simp
  then show ?case by blast
qed

lemma display_roots_total:
  assumes "\<And>c ch p. c \<in> set rs \<Longrightarrow> agrees ch0 ch \<Longrightarrow>
             \<exists>fuel out ch'. display fuel nodes ch c p = Some (out, ch') \<and> agrees ch0 ch'"
      and "agrees ch0 ch"
  shows "\<exists>fuel out. display_roots (display fuel nodes) rs ch = Some out"
  using assms
proof (induction rs arbitrary: ch)
  case Nil then show ?case by simp
next
  case (Cons r rs)
  from Cons.prems(1)[of r ch "[]"] Cons.prems(2) obtain f1 o1 ch1 where
    1: "display f1 nodes ch r [] = Some (o1, ch1)" and a1: "agrees ch0 ch1" by auto
  have "\<exists>fuel out. display_roots (display fuel nodes) rs ch1 = Some out"
  proof (rule Cons.IH[OF _ a1])
    fix c' ch' p assume "c' \<in> set rs" "agrees ch0 ch'"
    then show "\<exists>fuel out ch''. display fuel nodes ch' c' p = Some (out, ch'') \<and> agrees ch0 ch''"
      using Cons.prems(1)[of c' ch' p] by simp
  qed
  then obtain f2 o2 where 2: "display_roots (display f2 nodes) rs ch1 = Some o2" by auto
  let ?f = "max f1 f2"
  have d1: "display ?f nodes ch r [] = Some (o1, ch1)"
    using 1 by (rule display_mono) simp
  have mono: "display_roots (display f2 nodes) xs c = Some res \<Longrightarrow> display_roots (display ?f nodes) xs c = Some res" for xs c res
  proof (induction xs arbitrary: c res)
    case Nil then show ?case by simp
  next
    case (Cons x xs)
    from Cons.prems obtain a b e where
      x: "display f2 nodes c x [] = Some (a, b)" and y: "display_roots (display f2 nodes) xs b = Some e"
      and res: "res = a @ [[]] @ e"
      by (auto split: option.splits)
    have "display ?f nodes c x [] = Some (a, b)" using x by (rule display_mono) simp
    with Cons.IH[OF y] res show ?case by simp
  qed
  from d1 mono[OF 2] have "display_roots (display ?f nodes) (r # rs) ch = Some (o1 @ [[]] @ o2)"
    by simp
  then show ?case by blast
qed

text \<open>
  Claim C3. The children that \<^verbatim>\<open>display\<close> recurses into at a name are the list stored
  under \<^verbatim>\<open>/\<close> followed by the name, then the list stored under the name, with every
  later occurrence of a key removed. The extension of the stored list by \<^verbatim>\<open>kids +=\<close>
  does not change this list for any name that does not start with \<^verbatim>\<open>/\<close>, so it is the
  same list in the dictionary that a call returns as in the one it received.
\<close>

theorem display_children_dual_lookup:
  "display (Suc fuel) nodes ch name prefix =
     (case display_children (display fuel nodes) prefix (dual_lookup ch name) (snd (lookup_kids ch name)) of
        None \<Rightarrow> None
      | Some (out, ch') \<Rightarrow> Some ((prefix @ node_label nodes name) # out, ch'))
   \<and> (display fuel nodes ch name prefix = Some (out, ch') \<longrightarrow>
        (\<forall>m. \<not> starts_slash m \<longrightarrow> dual_lookup ch' m = dual_lookup ch m))"
  using display_Suc display_keeps by blast

lemma build_index_arda:
  "build_index py_lower dir_arda =
     ([(str ''arda'', \<lparr>n_type = str ''World'', n_parent = str ''-'', n_notes = []\<rparr>),
       (str ''edoras'', \<lparr>n_type = str ''City'', n_parent = str ''rohan'', n_notes = []\<rparr>),
       (str ''gondor'', \<lparr>n_type = str ''Kingdom'', n_parent = str ''arda'', n_notes = []\<rparr>),
       (str ''minas_tirith'', \<lparr>n_type = str ''City'', n_parent = str ''/gondor'', n_notes = []\<rparr>),
       (str ''rohan'', \<lparr>n_type = str ''Kingdom'', n_parent = str ''arda'', n_notes = []\<rparr>)],
      [(None, [str ''arda'']),
       (Some (str ''rohan''), [str ''edoras'']),
       (Some (str ''arda''), [str ''gondor'', str ''rohan'']),
       (Some (str ''/gondor''), [str ''minas_tirith''])])"
  by (simp add: dir_arda_def eval_defs)

text \<open>
  Claim C1. The rule holds for the children of the starting node only. A grandchild is
  printed after the branch glyph of its parent and its own, where the claim asks for
  the continuation of the parent (\<^verbatim>\<open>glyph_bar\<close> or \<^verbatim>\<open>glyph_blank\<close>) before the glyph of
  the grandchild: \<^verbatim>\<open>child_prefix\<close> holds that continuation and is never used.
\<close>

theorem tree_grandchild_prefix:
  "cmd_tree py_lower 3 (Some dir_arda) (str ''/w'') (Some (str ''arda'')) =
     Some (0, [str ''arda [World]'',
               glyph_branch @ str ''gondor [Kingdom]'',
               glyph_branch @ glyph_last @ str ''minas_tirith [City]'',
               glyph_last @ str ''rohan [Kingdom]'',
               glyph_last @ glyph_last @ str ''edoras [City]''])
   \<and> glyph_branch @ glyph_last \<noteq> glyph_bar @ glyph_last
   \<and> glyph_last @ glyph_last \<noteq> glyph_blank @ glyph_last"
  by (simp add: cmd_tree_def build_index_arda tree_roots_def Let_def lookup_kids_def children_get_def
        glyph_last_def glyph_branch_def glyph_bar_def glyph_blank_def str_def numeral_3_eq_3)

lemma starts_slash_mem: "starts_slash s \<Longrightarrow> 47 \<in> set s"
  by (cases s) (auto simp: starts_slash_def slash_code)

lemma set_stem: "set (stem f) \<subseteq> set f"
  by (auto simp: stem_def dest: in_set_takeD)

lemma set_iter_nodes: "set (iter_nodes d) = {r \<in> set d. glob_txt (fst r)}"
  by (auto simp: iter_nodes_def)

lemma build_index_members:
  "c \<in> set (children_get (snd (build_index lower d)) k) \<Longrightarrow> \<exists>f\<in>fst ` set d. c = stem f"
  by (auto simp: build_index_children rec_key_def set_iter_nodes)

lemma dual_lookup_members:
  "c \<in> set (dual_lookup (snd (build_index lower d)) n) \<Longrightarrow> \<exists>f\<in>fst ` set d. c = stem f"
  by (auto simp: dual_lookup_def set_first_seen dest: build_index_members)

lemma finite_child_rel: "finite (child_rel ch)"
proof -
  let ?K = "fst ` set ch"
  let ?P = "the ` ?K \<union> (tl \<circ> the) ` ?K"
  let ?C = "\<Union>(set ` snd ` set ch)"
  have get: "k \<in> ?K \<and> c \<in> ?C" if "c \<in> set (children_get ch k)" for c k
  proof (cases "map_of ch k")
    case None with that show ?thesis by (simp add: children_get_def)
  next
    case (Some v)
    then have "(k, v) \<in> set ch" by (rule map_of_SomeD)
    moreover from that Some have "c \<in> set v" by (simp add: children_get_def)
    ultimately show ?thesis by force
  qed
  have "child_rel ch \<subseteq> ?P \<times> ?C"
  proof
    fix x assume x: "x \<in> child_rel ch"
    obtain n c where nc: "x = (n, c)" by (cases x)
    from x nc have "c \<in> set (children_get ch (Some (47 # n))) \<or> c \<in> set (children_get ch (Some n))"
      by (auto simp: child_rel_def slash_code)
    then show "x \<in> ?P \<times> ?C"
    proof
      assume "c \<in> set (children_get ch (Some (47 # n)))"
      from get[OF this] have "Some (47 # n) \<in> ?K" "c \<in> ?C" by auto
      then have "(tl \<circ> the) (Some (47 # n)) \<in> (tl \<circ> the) ` ?K" by (intro imageI)
      with \<open>c \<in> ?C\<close> nc show ?thesis by simp
    next
      assume "c \<in> set (children_get ch (Some n))"
      from get[OF this] have "Some n \<in> ?K" "c \<in> ?C" by auto
      then have "the (Some n) \<in> the ` ?K" by (intro imageI)
      with \<open>c \<in> ?C\<close> nc show ?thesis by simp
    qed
  qed
  moreover have "finite (?P \<times> ?C)" by simp
  ultimately show ?thesis by (rule finite_subset)
qed

lemma acyclic_index_total:
  assumes names: "\<forall>f\<in>fst ` set d. 47 \<notin> set f"
      and acyc: "acyclic (child_rel (snd (build_index lower d)))"
  shows "\<not> starts_slash name \<Longrightarrow> agrees (snd (build_index lower d)) ch \<Longrightarrow>
         \<exists>fuel out ch'. display fuel nodes ch name prefix = Some (out, ch') \<and> agrees (snd (build_index lower d)) ch'"
proof (rule display_total)
  let ?ch0 = "snd (build_index lower d)"
  have "wf ((child_rel ?ch0)\<inverse>)"
    using finite_child_rel acyc by (rule finite_acyclic_wf_converse)
  moreover have "{(c, n). \<not> starts_slash n \<and> c \<in> set (dual_lookup ?ch0 n)} \<subseteq> (child_rel ?ch0)\<inverse>"
    by (auto simp: child_rel_def dual_lookup_def set_first_seen)
  ultimately show "wf {(c, n). \<not> starts_slash n \<and> c \<in> set (dual_lookup ?ch0 n)}"
    by (rule wf_subset)
next
  fix n c assume "c \<in> set (dual_lookup (snd (build_index lower d)) n)"
  then obtain f where f: "f \<in> fst ` set d" "c = stem f" by (blast dest: dual_lookup_members)
  with names have "47 \<notin> set c" using set_stem[of f] by auto
  then show "\<not> starts_slash c" using starts_slash_mem by blast
qed

lemma index_key_no_slash:
  assumes names: "\<forall>f\<in>fst ` set d. 47 \<notin> set f"
      and "name \<in> fst ` set (fst (build_index lower d))"
  shows "\<not> starts_slash name"
proof -
  from assms(2) obtain r where "r \<in> set (iter_nodes d)" "name = stem (fst r)"
    unfolding build_index_keys by (auto simp: rec_key_def)
  then have "fst r \<in> fst ` set d" "set name \<subseteq> set (fst r)"
    using set_stem by (auto simp: set_iter_nodes)
  with names have "47 \<notin> set name" by blast
  then show ?thesis using starts_slash_mem by blast
qed

lemma cmd_tree_total:
  assumes names: "\<forall>f\<in>fst ` set d. 47 \<notin> set f"
      and acyc: "acyclic (child_rel (snd (build_index lower d)))"
  shows "\<exists>fuel r. cmd_tree lower fuel (Some d) dp root = Some r"
proof (cases "root \<noteq> None \<and> root \<noteq> Some []")
  case True
  then obtain start where root: "root = Some start" "start \<noteq> []" by auto
  show ?thesis
  proof (cases "map_of (fst (build_index lower d)) start")
    case None
    with root have "cmd_tree lower 0 (Some d) dp root = Some (1, [str ''Root not found: '' @ start])"
      by (simp add: cmd_tree_def Let_def)
    then show ?thesis by blast
  next
    case (Some n)
    then have "start \<in> fst ` set (fst (build_index lower d))"
      by (auto dest!: map_of_SomeD intro: rev_image_eqI)
    then have "\<not> starts_slash start" using names by (rule index_key_no_slash[rotated])
    from acyclic_index_total[OF names acyc this agrees_refl, of "fst (build_index lower d)" "[]"]
    obtain fuel out ch' where "display fuel (fst (build_index lower d)) (snd (build_index lower d)) start [] = Some (out, ch')"
      by blast
    with root Some have "cmd_tree lower fuel (Some d) dp root = Some (0, out)"
      by (simp add: cmd_tree_def Let_def)
    then show ?thesis by blast
  qed
next
  case False
  let ?nodes = "fst (build_index lower d)"
  let ?ch0 = "snd (build_index lower d)"
  have "\<exists>fuel out. display_roots (display fuel ?nodes) (tree_roots lower ?nodes) ?ch0 = Some out"
  proof (rule display_roots_total[OF _ agrees_refl])
    fix c ch p assume c: "c \<in> set (tree_roots lower ?nodes)" and a: "agrees ?ch0 ch"
    from c have "c \<in> fst ` set ?nodes" by (auto simp: tree_roots_def)
    then have "\<not> starts_slash c" using names by (rule index_key_no_slash[rotated])
    from acyclic_index_total[OF names acyc this a]
    show "\<exists>fuel out ch'. display fuel ?nodes ch c p = Some (out, ch') \<and> agrees ?ch0 ch'" .
  qed
  then obtain fuel out where "display_roots (display fuel ?nodes) (tree_roots lower ?nodes) ?ch0 = Some out"
    by blast
  with False have "cmd_tree lower fuel (Some d) dp root = Some (0, out)"
    by (auto simp: cmd_tree_def Let_def)
  then show ?thesis by blast
qed

lemma build_index_cycle:
  "build_index lower dir_cycle =
     ([(str ''a'', \<lparr>n_type = str ''Node'', n_parent = str ''b'', n_notes = []\<rparr>),
       (str ''b'', \<lparr>n_type = str ''Node'', n_parent = str ''a'', n_notes = []\<rparr>)],
      [(Some (str ''b''), [str ''a'']), (Some (str ''a''), [str ''b''])])"
  by (simp add: dir_cycle_def eval_defs)

lemma display_cycle:
  "display fuel nodes [(Some (str ''b''), [str ''a'']), (Some (str ''a''), [str ''b''])] (str ''a'') prefix = None
   \<and> display fuel nodes [(Some (str ''b''), [str ''a'']), (Some (str ''a''), [str ''b''])] (str ''b'') prefix = None"
proof (induction fuel arbitrary: prefix)
  case 0 show ?case by simp
next
  case (Suc fuel)
  let ?C = "[(Some (str ''b''), [str ''a'']), (Some (str ''a''), [str ''b''])]"
  have a: "lookup_kids ?C (str ''a'') = ([str ''b''], ?C)"
    by (simp add: lookup_kids_def children_get_def str_def)
  have b: "lookup_kids ?C (str ''b'') = ([str ''a''], ?C)"
    by (simp add: lookup_kids_def children_get_def str_def)
  show ?case
    using Suc by (simp add: a b Let_def)
qed

lemma build_index_dual:
  "build_index py_lower dir_dual =
     ([(str ''a'', \<lparr>n_type = str ''T'', n_parent = str ''-'', n_notes = []\<rparr>),
       (str ''x'', \<lparr>n_type = str ''T'', n_parent = str ''/a'', n_notes = []\<rparr>),
       (str ''z'', \<lparr>n_type = str ''T'', n_parent = str ''a'', n_notes = []\<rparr>)],
      [(None, [str ''a'']), (Some (str ''/a''), [str ''x'']), (Some (str ''a''), [str ''z''])])"
  by (simp add: dir_dual_def eval_defs)

theorem display_children_dual_lookup_witness:
  "display 2 (fst (build_index py_lower dir_dual)) (snd (build_index py_lower dir_dual)) (str ''a'') [] =
     Some ([str ''a [T]'', glyph_branch @ str ''x [T]'', glyph_last @ str ''z [T]''],
           [(None, [str ''a'']), (Some (str ''/a''), [str ''x'', str ''z'']), (Some (str ''a''), [str ''z''])])
   \<and> dual_lookup [(None, [str ''a'']), (Some (str ''/a''), [str ''x'', str ''z'']), (Some (str ''a''), [str ''z''])] (str ''a'')
       = dual_lookup (snd (build_index py_lower dir_dual)) (str ''a'')
   \<and> dual_lookup (snd (build_index py_lower dir_dual)) (str ''a'') = [str ''x'', str ''z'']"
proof -
  have run: "display 2 (fst (build_index py_lower dir_dual)) (snd (build_index py_lower dir_dual)) (str ''a'') [] =
     Some ([str ''a [T]'', glyph_branch @ str ''x [T]'', glyph_last @ str ''z [T]''],
           [(None, [str ''a'']), (Some (str ''/a''), [str ''x'', str ''z'']), (Some (str ''a''), [str ''z''])])"
    by (simp add: build_index_dual Let_def lookup_kids_def children_get_def
          glyph_last_def glyph_branch_def str_def numeral_2_eq_2)
  have ns: "\<not> starts_slash (str ''a'')" by (simp add: starts_slash_def str_def)
  have keep: "dual_lookup [(None, [str ''a'']), (Some (str ''/a''), [str ''x'', str ''z'']), (Some (str ''a''), [str ''z''])] (str ''a'')
       = dual_lookup (snd (build_index py_lower dir_dual)) (str ''a'')"
    using display_children_dual_lookup[THEN conjunct2, rule_format, OF run ns] .
  have "dual_lookup (snd (build_index py_lower dir_dual)) (str ''a'') = [str ''x'', str ''z'']"
    by (simp add: build_index_dual dual_lookup_def children_get_def str_def)
  with run keep show ?thesis by blast
qed

text \<open>
  Claim C8. The renderer detects no cycle: in a directory where \<^verbatim>\<open>a\<close> names \<^verbatim>\<open>b\<close> as
  its parent and \<^verbatim>\<open>b\<close> names \<^verbatim>\<open>a\<close>, \<^verbatim>\<open>tree -r a\<close> reaches every bound on the depth of
  recursion. When the relation between a key and its children in the index is acyclic,
  in a directory whose file names contain no \<^verbatim>\<open>/\<close>, \<^verbatim>\<open>tree\<close> returns, with or without a
  root, for a bound that is large enough.
\<close>

theorem tree_cycle_and_termination:
  "(\<forall>fuel. cmd_tree lower fuel (Some dir_cycle) dp (Some (str ''a'')) = None)
   \<and> (str ''a'', str ''a'') \<in> (child_rel (snd (build_index lower dir_cycle)))\<^sup>+
   \<and> ((\<forall>f\<in>fst ` set d. 47 \<notin> set f) \<and> acyclic (child_rel (snd (build_index lower d)))
        \<longrightarrow> (\<exists>fuel r. cmd_tree lower fuel (Some d) dp' root = Some r))"
proof (intro conjI allI impI)
  fix fuel
  show "cmd_tree lower fuel (Some dir_cycle) dp (Some (str ''a'')) = None"
    using display_cycle[of fuel _ "[]"]
    by (simp add: cmd_tree_def build_index_cycle Let_def str_def)
next
  let ?R = "child_rel (snd (build_index lower dir_cycle))"
  have ab: "(str ''a'', str ''b'') \<in> ?R"
    by (simp add: build_index_cycle child_rel_def children_get_def str_def)
  have ba: "(str ''b'', str ''a'') \<in> ?R"
    by (simp add: build_index_cycle child_rel_def children_get_def str_def)
  from ab ba show "(str ''a'', str ''a'') \<in> ?R\<^sup>+" by (rule trancl.intros(2)[OF r_into_trancl])
next
  assume "(\<forall>f\<in>fst ` set d. 47 \<notin> set f) \<and> acyclic (child_rel (snd (build_index lower d)))"
  then have n: "\<forall>f\<in>fst ` set d. 47 \<notin> set f"
    and a: "acyclic (child_rel (snd (build_index lower d)))" by simp_all
  show "\<exists>fuel r. cmd_tree lower fuel (Some d) dp' root = Some r"
    using n a by (rule cmd_tree_total)
qed

lemma child_rel_edoras:
  "child_rel (snd (build_index py_lower dir_edoras)) = {(str ''edoras'', str ''rohan'')}"
  by (auto simp: build_index_edoras child_rel_def children_get_def str_def split: if_splits)

theorem tree_cycle_and_termination_witness:
  "list_all (\<lambda>f. 47 \<notin> set f) (map fst dir_edoras)
   \<and> acyclic (child_rel (snd (build_index py_lower dir_edoras)))
   \<and> (\<exists>fuel r. cmd_tree py_lower fuel (Some dir_edoras) (str ''/w'') None = Some r)"
proof -
  have n: "\<forall>f\<in>fst ` set dir_edoras. 47 \<notin> set f"
    by (simp add: dir_edoras_def str_def)
  have e: "acyclic ({} :: (pystr \<times> pystr) set)" by (simp add: acyclic_def)
  have a: "acyclic (child_rel (snd (build_index py_lower dir_edoras)))"
    unfolding child_rel_edoras using e by (simp add: acyclic_insert str_def)
  from tree_cycle_and_termination[where d = dir_edoras and lower = py_lower and dp' = "str ''/w''" and root = None] n a
  have "\<exists>fuel r. cmd_tree py_lower fuel (Some dir_edoras) (str ''/w'') None = Some r" by blast
  moreover from n have "list_all (\<lambda>f. 47 \<notin> set f) (map fst dir_edoras)"
    by (simp add: list_all_iff)
  ultimately show ?thesis using a by blast
qed

section \<open>The root argument of \<^verbatim>\<open>tree\<close>\<close>

text \<open>
  Claim C10, as amended. \<^verbatim>\<open>tree -r\<close> looks the name up among the keys as it was typed.
  When the name is not its own key, its record exists, and no record of the directory
  has the typed name as its key, \<^verbatim>\<open>tree -r\<close> returns 1 with \<^verbatim>\<open>Root not found\<close> while
  \<^verbatim>\<open>show\<close> with the same name returns 0.
\<close>

theorem tree_root_not_slugified:
  assumes "slugify name \<noteq> name"
      and "file_text (Some d) (node_file name) \<noteq> None"
      and "name \<notin> stem ` {f \<in> fst ` set d. glob_txt f}"
  shows "cmd_tree lower fuel (Some d) dp (Some name) = Some (1, [str ''Root not found: '' @ name])
         \<and> fst (cmd_show (Some d) dp name) = 0"
proof -
  have "slugify [] = []"
    by (simp add: slugify_def py_lower_def py_strip_def strip_chars_def)
  with assms(1) have ne: "name \<noteq> []" by auto
  have "fst ` set (fst (build_index lower d)) = stem ` {f \<in> fst ` set d. glob_txt f}"
    unfolding build_index_keys set_iter_nodes by (force simp: rec_key_def)
  with assms(3) have "map_of (fst (build_index lower d)) name = None"
    by (simp add: map_of_eq_None_iff)
  with ne have "cmd_tree lower fuel (Some d) dp (Some name) = Some (1, [str ''Root not found: '' @ name])"
    by (simp add: cmd_tree_def Let_def)
  moreover from assms(2) have "fst (cmd_show (Some d) dp name) = 0"
    by (auto simp: cmd_show_def Let_def)
  ultimately show ?thesis by simp
qed

theorem tree_root_not_slugified_witness:
  "slugify (str ''Edoras'') = str ''edoras''
   \<and> cmd_tree py_lower 0 (Some dir_edoras) (str ''/w'') (Some (str ''Edoras''))
       = Some (1, [str ''Root not found: Edoras''])
   \<and> fst (cmd_show (Some dir_edoras) (str ''/w'') (str ''Edoras'')) = 0"
proof -
  have s: "slugify (str ''Edoras'') = str ''edoras''"
    by (simp add: eval_defs)
  then have 1: "slugify (str ''Edoras'') \<noteq> str ''Edoras''" by (simp add: str_def)
  have 2: "file_text (Some dir_edoras) (node_file (str ''Edoras'')) \<noteq> None"
    unfolding node_file_def s by (simp add: file_text_def dir_edoras_def str_def)
  have 3: "str ''Edoras'' \<notin> stem ` {f \<in> fst ` set dir_edoras. glob_txt f}"
    by (auto simp: dir_edoras_def glob_txt_def stem_def str_def)
  from tree_root_not_slugified[OF 1 2 3, of py_lower 0 "str ''/w''"] s show ?thesis
    by (simp add: str_def)
qed

lemma st_readme_eq: "st_readme = Some [(str ''README.txt'', readme_text), (str ''readme.txt'', str ''Node'' @ [10] @ str ''-'' @ [10])]"
  by (simp add: st_readme_def cmd_init_def cmd_add_def record_text_def node_file_def slugify_def
      py_lower_def lower_cp_def py_strip_def strip_chars_def py_isspace_def not_az09_def is_az09_def is_underscore_def str_def Let_def)

text \<open>
  The claim as stated fails: after \<^verbatim>\<open>init\<close> and \<^verbatim>\<open>add README\<close> the directory holds
  \<^verbatim>\<open>README.txt\<close> and \<^verbatim>\<open>readme.txt\<close>. The name \<^verbatim>\<open>README\<close> is not its own key and
  \<^verbatim>\<open>show README\<close> succeeds, yet \<^verbatim>\<open>tree -r README\<close> finds the key \<^verbatim>\<open>README\<close> and returns 0.
\<close>

theorem tree_root_verbatim_counterexample:
  "slugify (str ''README'') \<noteq> str ''README'' \<and>
   fst (cmd_show st_readme (str ''/w'') (str ''README'')) = 0 \<and>
   cmd_tree py_lower 1 st_readme (str ''/w'') (Some (str ''README''))
     = Some (0, [str ''README [World Builder data directory.]''])"
  unfolding st_readme_eq
  by (simp add: eval_defs)

end
